theory Spec2Isabelle
  imports Main "HOL-Library.Word"
begin

unbundle bit_operations_syntax

section \<open>Data model\<close>

text \<open>
  The sketch targets an Arduino Nano (ATmega328P): \<^verbatim>\<open>long\<close> and
  \<^verbatim>\<open>unsigned long\<close> are 32 bits wide, \<^verbatim>\<open>uint16_t\<close> and
  \<^verbatim>\<open>uint8_t\<close> are 16 and 8 bits. A \<^verbatim>\<open>long\<close> is kept as its 32-bit
  pattern; \<open>sint\<close> reads it as the signed value, \<open>uint\<close> reads an
  \<^verbatim>\<open>unsigned long\<close>.
\<close>

type_synonym long = "32 word"
type_synonym ulong = "32 word"
type_synonym uint16_t = "16 word"
type_synonym uint8_t = "8 word"

text \<open>\<^verbatim>\<open>struct SubmarinePulseType { bool enableWait; long waitDuration; }\<close>\<close>

record SubmarinePulseType =
  enableWait :: bool
  waitDuration :: long

definition PULSE_SHORT :: SubmarinePulseType where
  "PULSE_SHORT = \<lparr>enableWait = False, waitDuration = 0\<rparr>"

definition PULSE_LONG :: SubmarinePulseType where
  "PULSE_LONG = \<lparr>enableWait = True, waitDuration = 450\<rparr>"

definition PULSE_SYNC :: SubmarinePulseType where
  "PULSE_SYNC = \<lparr>enableWait = True, waitDuration = 900\<rparr>"

text \<open>\<^verbatim>\<open>enum class SubmarineCommand : uint8_t\<close> and its cast to the underlying byte.\<close>

datatype SubmarineCommand =
  STOP | FORWARD | BACK | LEFT | RIGHT | UP | DOWN | CMD1 | CMD2

fun static_cast_uint8 :: "SubmarineCommand \<Rightarrow> uint8_t" where
  "static_cast_uint8 STOP = 0x00"
| "static_cast_uint8 FORWARD = 0x01"
| "static_cast_uint8 BACK = 0x02"
| "static_cast_uint8 LEFT = 0x04"
| "static_cast_uint8 RIGHT = 0x08"
| "static_cast_uint8 UP = 0x10"
| "static_cast_uint8 DOWN = 0x20"
| "static_cast_uint8 CMD1 = 0x40"
| "static_cast_uint8 CMD2 = 0x80"

section \<open>The hardware seen by the class\<close>

text \<open>
  The class drives three things outside itself: the clock generator's output switch
  (\<^verbatim>\<open>clockGenerator.enableOutputs\<close>), the two blocking waits
  (\<^verbatim>\<open>delayMicroseconds\<close>, \<^verbatim>\<open>delay\<close>) and the millisecond counter
  (\<^verbatim>\<open>millis\<close>). Every call is logged with the argument it was given, in the
  order of the calls. The counter is an input of the model: \<open>clock s k\<close> is the value
  the \<open>k\<close>-th call of \<^verbatim>\<open>millis\<close> returns, and \<open>reads s\<close> counts the calls made
  so far, so that any timing of the board is one choice of \<open>clock\<close>.
\<close>

datatype event =
  EnableOutputs bool
| DelayMicroseconds long
| Delay ulong

record hw =
  outputsEnabled :: bool
  events :: "event list"
  clock :: "nat \<Rightarrow> ulong"
  reads :: nat

definition enableOutputs :: "bool \<Rightarrow> hw \<Rightarrow> hw" where
  "enableOutputs b s = s\<lparr>outputsEnabled := b, events := events s @ [EnableOutputs b]\<rparr>"

definition delayMicroseconds :: "long \<Rightarrow> hw \<Rightarrow> hw" where
  "delayMicroseconds us s = s\<lparr>events := events s @ [DelayMicroseconds us]\<rparr>"

definition delay :: "ulong \<Rightarrow> hw \<Rightarrow> hw" where
  "delay ms s = s\<lparr>events := events s @ [Delay ms]\<rparr>"

definition millis :: "hw \<Rightarrow> ulong \<times> hw" where
  "millis s = (clock s (reads s), s\<lparr>reads := Suc (reads s)\<rparr>)"

section \<open>Submarine\<close>

text \<open>
  The constructor. \<open>beginOk\<close> says whether \<^verbatim>\<open>clockGenerator.begin()\<close> returned
  \<^verbatim>\<open>ERROR_NONE\<close>; when it did not, the constructor spins in \<^verbatim>\<open>while (1)\<close>
  and never returns, which is the value \<open>None\<close>. The PLL, multisynth and divider
  set-up calls do not touch the output switch; the last call switches the outputs off.
\<close>

definition Submarine :: "bool \<Rightarrow> (nat \<Rightarrow> ulong) \<Rightarrow> hw option" where
  "Submarine beginOk clk =
     (if \<not> beginOk then None
      else Some (enableOutputs False
                  \<lparr>outputsEnabled = False, events = [], clock = clk, reads = 0\<rparr>))"

subsection \<open>sendPulses\<close>

text \<open>
  The two \<^verbatim>\<open>for (int i = 0; i < pulseCount; i++)\<close> loops. The counter only ever
  takes values up to \<open>pulseCount\<close>, so \<^verbatim>\<open>i++\<close> cannot overflow whatever the
  width of \<^verbatim>\<open>int\<close> is, and the integers are exact.
\<close>

function waitPulses :: "int \<Rightarrow> int \<Rightarrow> long \<Rightarrow> hw \<Rightarrow> hw" where
  "waitPulses i pulseCount w s =
     (if i < pulseCount
      then waitPulses (i + 1) pulseCount w
             (delayMicroseconds w (enableOutputs False
               (delayMicroseconds w (enableOutputs True s))))
      else s)"
  by pat_completeness auto
termination
  by (relation "measure (\<lambda>(i, pulseCount, w, s). nat (pulseCount - i))") auto

function bluntPulses :: "int \<Rightarrow> int \<Rightarrow> hw \<Rightarrow> hw" where
  "bluntPulses i pulseCount s =
     (if i < pulseCount
      then bluntPulses (i + 1) pulseCount (enableOutputs False (enableOutputs True s))
      else s)"
  by pat_completeness auto
termination
  by (relation "measure (\<lambda>(i, pulseCount, s). nat (pulseCount - i))") auto

definition sendPulses :: "SubmarinePulseType \<Rightarrow> int \<Rightarrow> hw \<Rightarrow> hw" where
  "sendPulses pulseType pulseCount s =
     (if enableWait pulseType
      then waitPulses 0 pulseCount (waitDuration pulseType) s
      else bluntPulses 0 pulseCount s)"

subsection \<open>sendFrame and sendStop\<close>

text \<open>
  The data loop \<^verbatim>\<open>for (uint8_t i = 0; i < 16; i++)\<close> with the moving mask
  \<^verbatim>\<open>currentPosition\<close>. Both operands of \<^verbatim>\<open>&\<close> are unsigned 16-bit values,
  so \<^verbatim>\<open>> 0\<close> is the unsigned comparison.
\<close>

function frameBits :: "uint8_t \<Rightarrow> uint16_t \<Rightarrow> uint16_t \<Rightarrow> hw \<Rightarrow> hw" where
  "frameBits i currentPosition frame s =
     (if i < 16
      then frameBits (i + 1) (drop_bit 1 currentPosition) frame
             (sendPulses (if (currentPosition AND frame) > 0 then PULSE_LONG else PULSE_SHORT) 1 s)
      else s)"
  by pat_completeness auto
termination
proof (relation "measure (\<lambda>(i, currentPosition, frame, s). 16 - unat i)")
  show "wf (measure (\<lambda>(i :: uint8_t, currentPosition :: uint16_t, frame :: uint16_t, s :: hw). 16 - unat i))"
    by simp
next
  fix i :: uint8_t and currentPosition frame :: uint16_t and s :: hw
  assume "i < 16"
  then have "unat i < 16"
    by (simp add: word_less_nat_alt)
  moreover from this have "unat (i + 1) = unat i + 1"
    by (simp add: unat_word_ariths)
  ultimately show "((i + 1, drop_bit 1 currentPosition, frame,
      sendPulses (if 0 < currentPosition AND frame then PULSE_LONG else PULSE_SHORT) 1 s),
      i, currentPosition, frame, s)
    \<in> measure (\<lambda>(i, currentPosition, frame, s). 16 - unat i)"
    by simp
qed

definition sendFrame :: "uint16_t \<Rightarrow> hw \<Rightarrow> hw" where
  "sendFrame frame s =
     sendPulses PULSE_SHORT 1 (frameBits 0 0x8000 frame (sendPulses PULSE_SYNC 2 s))"

definition sendStop :: "hw \<Rightarrow> hw" where
  "sendStop s = sendFrame 0xFF00 s"

subsection \<open>sendCommand\<close>

text \<open>
  The first three statements of \<^verbatim>\<open>sendCommand\<close> build the frame:
  \<^verbatim>\<open>lsB = static_cast<uint8_t>(command); msB = ~lsB; frame = (msB << 8) | lsB\<close>.
  The complement is taken on the promoted value and cut back to eight bits by the
  assignment; the shifted byte keeps its bit pattern in the 16-bit result.
\<close>

definition commandFrame :: "SubmarineCommand \<Rightarrow> uint16_t" where
  "commandFrame command =
     (let lsB = static_cast_uint8 command;
          msB = NOT lsB
      in push_bit 8 (ucast msB) OR ucast lsB)"

text \<open>
  The hold loop \<^verbatim>\<open>while (millis() < (start_time + hold_time_ms))\<close>. The right-hand
  side is a \<^verbatim>\<open>long\<close>, the left-hand side an \<^verbatim>\<open>unsigned long\<close>: the sum is
  converted to \<^verbatim>\<open>unsigned long\<close> and the comparison is unsigned. The 32-bit sum
  is taken with two's-complement wrap-around, which is what the 32-bit addition of the
  target computes. The loop has no bound of its own, so a run that never leaves it is
  the value \<open>None\<close>.
\<close>

partial_function (option) holdLoop :: "long \<Rightarrow> long \<Rightarrow> uint16_t \<Rightarrow> hw \<Rightarrow> hw option" where
  "holdLoop start_time hold_time_ms frame s =
     (case millis s of
        (now, s1) \<Rightarrow>
          if now < start_time + hold_time_ms
          then holdLoop start_time hold_time_ms frame (sendFrame frame (delay 35 s1))
          else Some s1)"

text \<open>The closing loop \<^verbatim>\<open>for (uint8_t i = 0; i < 3; i++)\<close>.\<close>

function stopFrames :: "uint8_t \<Rightarrow> hw \<Rightarrow> hw" where
  "stopFrames i s = (if i < 3 then stopFrames (i + 1) (sendStop (delay 35 s)) else s)"
  by pat_completeness auto
termination
proof (relation "measure (\<lambda>(i, s). 3 - unat i)")
  show "wf (measure (\<lambda>(i :: uint8_t, s :: hw). 3 - unat i))"
    by simp
next
  fix i :: uint8_t and s :: hw
  assume "i < 3"
  then have "unat i < 3"
    by (simp add: word_less_nat_alt)
  moreover from this have "unat (i + 1) = unat i + 1"
    by (simp add: unat_word_ariths)
  ultimately show "((i + 1, sendStop (delay 35 s)), i, s) \<in> measure (\<lambda>(i, s). 3 - unat i)"
    by simp
qed

definition sendCommand :: "SubmarineCommand \<Rightarrow> long \<Rightarrow> hw \<Rightarrow> hw option" where
  "sendCommand command hold_time_ms s =
     (let frame = commandFrame command in
      case millis s of
        (start_time, s1) \<Rightarrow>
          (case holdLoop start_time hold_time_ms frame
                  (sendFrame frame (delay 35 (sendFrame frame s1))) of
             None \<Rightarrow> None
           | Some s2 \<Rightarrow> Some (stopFrames 0 s2)))"


section \<open>Reading the contracts as data\<close>

text \<open>
  The contract of the pulse timing engine, in its own words: one repetition with an
  explicit wait enables the carrier, waits the half period, disables the carrier and
  waits the half period again; one repetition without it enables the carrier and
  disables it at once.
\<close>

definition onePulse :: "SubmarinePulseType \<Rightarrow> event list" where
  "onePulse pulseType =
     (if enableWait pulseType
      then [EnableOutputs True, DelayMicroseconds (waitDuration pulseType),
            EnableOutputs False, DelayMicroseconds (waitDuration pulseType)]
      else [EnableOutputs True, EnableOutputs False])"

text \<open>
  The contract of the frame encoder, in its own words: two SYNC pulses, then one pulse
  for each of the bits 15 down to 0, LONG for a set bit and SHORT for a clear one, then
  one SHORT pulse.
\<close>

definition dataPulses :: "uint16_t \<Rightarrow> nat \<Rightarrow> SubmarinePulseType list" where
  "dataPulses frame n =
     map (\<lambda>i. if bit frame i then PULSE_LONG else PULSE_SHORT) (rev [0..<n])"

definition framePulses :: "uint16_t \<Rightarrow> SubmarinePulseType list" where
  "framePulses frame = [PULSE_SYNC, PULSE_SYNC] @ dataPulses frame 16 @ [PULSE_SHORT]"

text \<open>
  The log of one frame under these two contracts: the pulses of \<open>framePulses\<close>,
  one after the other.
\<close>

definition frameLog :: "uint16_t \<Rightarrow> event list" where
  "frameLog frame = concat (map onePulse (framePulses frame))"

text \<open>
  The log of one command, in the words of the sequencer's contract: the frame, a wait of
  35 ms and the frame again; then \<open>n\<close> rounds of the hold loop, each a wait of 35 ms
  and the frame; then three times a wait of 35 ms and the frame \<open>0xFF00\<close>.
\<close>

definition commandLog :: "uint16_t \<Rightarrow> nat \<Rightarrow> event list" where
  "commandLog frame n =
     frameLog frame @ Delay 35 # frameLog frame @
     concat (replicate n (Delay 35 # frameLog frame)) @
     concat (replicate 3 (Delay 35 # frameLog 0xFF00))"

text \<open>
  The time that has passed on the millisecond counter, for a call of \<open>sendCommand\<close>
  entered in state \<open>s\<close>: the reading taken at the \<open>k\<close>-th test of the hold loop
  minus the reading stored in \<^verbatim>\<open>start_time\<close>. The counter is a 32-bit value
  that rolls over, so the difference is taken modulo \<open>2 ^ 32\<close>: it is the time
  passed as long as that is less than \<open>2 ^ 32\<close> ms.
\<close>

definition elapsed :: "hw \<Rightarrow> nat \<Rightarrow> int" where
  "elapsed s k = uint (clock s (reads s + k) - clock s (reads s))"

text \<open>
  In a log, every switching-on of the outputs is followed by a switching-off.
\<close>

fun enablesClosed :: "event list \<Rightarrow> bool" where
  "enablesClosed [] = True"
| "enablesClosed (EnableOutputs True # es) = (EnableOutputs False \<in> set es \<and> enablesClosed es)"
| "enablesClosed (e # es) = enablesClosed es"

text \<open>
  The states an object can be in between two calls: the one the constructor leaves,
  and those any of the four public member functions leaves when it returns.
\<close>

inductive reachable :: "hw \<Rightarrow> bool" where
  constructed: "Submarine beginOk clk = Some s \<Longrightarrow> reachable s"
| pulses: "reachable s \<Longrightarrow> reachable (sendPulses pulseType pulseCount s)"
| frame: "reachable s \<Longrightarrow> reachable (sendFrame frame s)"
| stop: "reachable s \<Longrightarrow> reachable (sendStop s)"
| command: "reachable s \<Longrightarrow> sendCommand command hold_time_ms s = Some s' \<Longrightarrow> reachable s'"

text \<open>
  The clock model for a call of \<open>sendCommand\<close> entered in state \<open>s\<close>: the
  counter does not go back, and the wait of 35 ms advances it by at least 35. It is asked
  only of the waits the hold loop performs, that is after each test of the loop that lets
  it go on; the readings are compared as unsigned 32-bit values, so the counter does not
  roll over between two such tests.
\<close>

definition waitsAdvance :: "hw \<Rightarrow> long \<Rightarrow> bool" where
  "waitsAdvance s hold_time_ms \<longleftrightarrow>
     (\<forall>k. 1 \<le> k \<and> clock s (reads s + k) < clock s (reads s) + hold_time_ms \<longrightarrow>
          unat (clock s (reads s + k)) + 35 \<le> unat (clock s (reads s + Suc k)))"

text \<open>
  A board for the examples: the object as the constructor leaves it, with a counter
  that reads \<open>t0\<close> at the first call of \<^verbatim>\<open>millis\<close> and 35 more at each
  following call.
\<close>

definition board :: "ulong \<Rightarrow> hw" where
  "board t0 =
     \<lparr>outputsEnabled = False, events = [EnableOutputs False],
      clock = (\<lambda>k. t0 + 35 * of_nat k), reads = 0\<rparr>"



text \<open>
  A second board for the examples, whose counter advances by just the waits of a command
  with the frame of FORWARD (10.8 ms of pulse waits for each frame): it reads \<open>t0\<close>
  at the first call of \<^verbatim>\<open>millis\<close>, 56 more at the second and 45 more at each
  following call, modulo \<open>2 ^ 32\<close>.
\<close>

definition paced :: "ulong \<Rightarrow> hw" where
  "paced t0 =
     \<lparr>outputsEnabled = False, events = [EnableOutputs False],
      clock = (\<lambda>k. if k = 0 then t0 else t0 + 11 + 45 * of_nat k), reads = 0\<rparr>"

section \<open>The loops, unrolled\<close>

declare waitPulses.simps [simp del] bluntPulses.simps [simp del]
  frameBits.simps [simp del] stopFrames.simps [simp del]

lemma waitPulses_state:
  "waitPulses i n w s =
     s\<lparr>outputsEnabled := (if i < n then False else outputsEnabled s),
       events := events s @ concat (replicate (nat (n - i))
         [EnableOutputs True, DelayMicroseconds w, EnableOutputs False, DelayMicroseconds w])\<rparr>"
proof (induction i n w s rule: waitPulses.induct)
  case (1 i n w s)
  show ?case
  proof (cases "i < n")
    case True
    then have "nat (n - i) = Suc (nat (n - (i + 1)))"
      by simp
    with True 1 show ?thesis
      by (subst waitPulses.simps)
        (simp add: enableOutputs_def delayMicroseconds_def)
  next
    case False
    then show ?thesis
      by (subst waitPulses.simps) simp
  qed
qed

lemma bluntPulses_state:
  "bluntPulses i n s =
     s\<lparr>outputsEnabled := (if i < n then False else outputsEnabled s),
       events := events s @ concat (replicate (nat (n - i))
         [EnableOutputs True, EnableOutputs False])\<rparr>"
proof (induction i n s rule: bluntPulses.induct)
  case (1 i n s)
  show ?case
  proof (cases "i < n")
    case True
    then have "nat (n - i) = Suc (nat (n - (i + 1)))"
      by simp
    with True 1 show ?thesis
      by (subst bluntPulses.simps)
        (simp add: enableOutputs_def)
  next
    case False
    then show ?thesis
      by (subst bluntPulses.simps) simp
  qed
qed

lemma sendPulses_state:
  "sendPulses p n s =
     s\<lparr>outputsEnabled := (if 0 < n then False else outputsEnabled s),
       events := events s @ concat (replicate (nat n) (onePulse p))\<rparr>"
  by (simp add: sendPulses_def waitPulses_state bluntPulses_state onePulse_def)

lemma sendPulses_two: "sendPulses p 2 s = sendPulses p 1 (sendPulses p 1 s)"
  by (simp add: sendPulses_state numeral_2_eq_2)

text \<open>The mask after \<open>k\<close> shifts selects bit \<open>15 - k\<close> of the frame.\<close>

lemma mask_test:
  assumes "k < 16"
  shows "(0 < (drop_bit k (0x8000 :: uint16_t) AND frame)) = bit frame (15 - k)"
proof -
  have "(0x8000 :: uint16_t) = 2 ^ 15"
    by simp
  then have "drop_bit k (0x8000 :: uint16_t) = 2 ^ (15 - k)"
    using assms by (simp only: drop_bit_exp_eq) simp
  then show ?thesis
    using and_exp_eq_0_iff_not_bit [of frame "15 - k"]
    by (simp add: word_gt_0 ac_simps)
qed

lemma frameBits_from:
  "k \<le> 16 \<Longrightarrow> 16 - k = m \<Longrightarrow>
     frameBits (of_nat k) (drop_bit k 0x8000) frame s =
       fold (\<lambda>p. sendPulses p 1) (dataPulses frame m) s"
proof (induction m arbitrary: k s)
  case 0
  then have "k = 16" by simp
  then show ?case
    by (subst frameBits.simps) (simp add: dataPulses_def)
next
  case (Suc m)
  then have k: "k < 16" and m: "m = 15 - k" "16 - Suc k = m" "Suc k \<le> 16"
    by simp_all
  from k have lt: "(of_nat k :: uint8_t) < 16"
    by (simp add: word_less_nat_alt unat_of_nat)
  have step: "drop_bit 1 (drop_bit k (0x8000 :: uint16_t)) = drop_bit (Suc k) 0x8000"
    by (simp add: drop_bit_drop_bit)
  have "frameBits (of_nat k) (drop_bit k 0x8000) frame s =
      frameBits (of_nat (Suc k)) (drop_bit (Suc k) 0x8000) frame
        (sendPulses (if bit frame m then PULSE_LONG else PULSE_SHORT) 1 s)"
    using lt mask_test [OF k, of frame] m(1)
    by (subst frameBits.simps) (simp only: step if_True of_nat_Suc add.commute)
  also have "\<dots> = fold (\<lambda>p. sendPulses p 1) (dataPulses frame m)
        (sendPulses (if bit frame m then PULSE_LONG else PULSE_SHORT) 1 s)"
    by (rule Suc.IH [OF m(3) m(2)])
  finally show ?case
    by (simp add: dataPulses_def)
qed

lemma sendFrame_fold:
  "sendFrame frame s = fold (\<lambda>p. sendPulses p 1) (framePulses frame) s"
  using frameBits_from [of 0 16 frame]
  by (simp add: sendFrame_def framePulses_def sendPulses_two)


lemma fold_pulses_state:
  "fold (\<lambda>p. sendPulses p 1) ps s =
     s\<lparr>outputsEnabled := (if ps = [] then outputsEnabled s else False),
       events := events s @ concat (map onePulse ps)\<rparr>"
  by (induction ps arbitrary: s) (simp_all add: sendPulses_state)

lemma sendFrame_state:
  "sendFrame frame s =
     s\<lparr>outputsEnabled := False, events := events s @ concat (map onePulse (framePulses frame))\<rparr>"
  by (simp add: sendFrame_fold fold_pulses_state) (simp add: framePulses_def)

lemma frameLog_eq: "frameLog frame = concat (map onePulse (framePulses frame))"
  by (simp add: frameLog_def)

lemma sendFrame_log:
  "sendFrame frame s = s\<lparr>outputsEnabled := False, events := events s @ frameLog frame\<rparr>"
  by (simp add: sendFrame_state frameLog_eq)

lemma stopFrames_state:
  "stopFrames 0 s =
     s\<lparr>outputsEnabled := False,
       events := events s @ concat (replicate 3 (Delay 35 # frameLog 0xFF00))\<rparr>"
  by (simp add: stopFrames.simps sendStop_def sendFrame_log delay_def numeral_3_eq_3)

text \<open>the state after n rounds of the hold loop and the closing read\<close>
lemma holdLoop_exit:
  assumes "\<forall>k<n. clock s (reads s + k) < start_time + hold_time_ms"
    and "\<not> clock s (reads s + n) < start_time + hold_time_ms"
  shows "holdLoop start_time hold_time_ms frame s =
     Some (s\<lparr>outputsEnabled := (if n = 0 then outputsEnabled s else False),
       events := events s @ concat (replicate n (Delay 35 # frameLog frame)),
       reads := reads s + n + 1\<rparr>)"
  using assms
proof (induction n arbitrary: s)
  case 0
  then show ?case
    by (subst holdLoop.simps) (simp add: millis_def)
next
  case (Suc n)
  let ?s' = "sendFrame frame (delay 35 (s\<lparr>reads := Suc (reads s)\<rparr>))"
  from Suc.prems have now: "clock s (reads s) < start_time + hold_time_ms"
    by force
  have cl: "clock ?s' = clock s" and rd: "reads ?s' = Suc (reads s)"
    by (simp_all add: sendFrame_log delay_def)
  from Suc.prems have a: "\<forall>k<n. clock ?s' (reads ?s' + k) < start_time + hold_time_ms"
    and b: "\<not> clock ?s' (reads ?s' + n) < start_time + hold_time_ms"
    unfolding cl rd by (auto dest: spec [where x = "Suc _"])
  have "holdLoop start_time hold_time_ms frame s = holdLoop start_time hold_time_ms frame ?s'"
    using now by (subst holdLoop.simps) (simp add: millis_def)
  also note Suc.IH [OF a b]
  finally show ?case
    by (simp add: sendFrame_log delay_def)
qed


lemma holdLoop_Some:
  assumes "holdLoop start_time hold_time_ms frame s = Some s'"
  shows "\<exists>n. (\<forall>k<n. clock s (reads s + k) < start_time + hold_time_ms) \<and>
         \<not> clock s (reads s + n) < start_time + hold_time_ms"
proof -
  define P where "P = (\<lambda>(st :: long) (h :: long) (f :: uint16_t) (s :: hw) (s' :: hw).
    \<exists>n. (\<forall>k<n. clock s (reads s + k) < st + h) \<and> \<not> clock s (reads s + n) < st + h)"
  have "P start_time hold_time_ms frame s s'"
  proof (rule holdLoop.raw_induct [where P = P, OF _ assms])
    fix loop st h f s s'
    assume IH: "\<And>st h f s s'. loop st h f s = Some s' \<Longrightarrow> P st h f s s'"
      and eq: "(case millis s of (now, s1) \<Rightarrow>
          if now < st + h then loop st h f (sendFrame f (delay 35 s1)) else Some s1) = Some s'"
    show "P st h f s s'"
    proof (cases "clock s (reads s) < st + h")
      case True
      let ?t = "sendFrame f (delay 35 (s\<lparr>reads := Suc (reads s)\<rparr>))"
      have cl: "clock ?t = clock s" and rd: "reads ?t = Suc (reads s)"
        by (simp_all add: sendFrame_log delay_def)
      from True eq have "loop st h f ?t = Some s'"
        by (simp add: millis_def)
      from IH [OF this] obtain n
        where n1: "\<forall>k<n. clock ?t (reads ?t + k) < st + h"
          and n2: "\<not> clock ?t (reads ?t + n) < st + h"
        unfolding P_def by (elim exE conjE)
      have "\<forall>k<Suc n. clock s (reads s + k) < st + h"
      proof (intro allI impI)
        fix k assume k: "k < Suc n"
        show "clock s (reads s + k) < st + h"
        proof (cases k)
          case 0
          with True show ?thesis by simp
        next
          case (Suc j)
          with k have "j < n" by simp
          with n1 have "clock ?t (reads ?t + j) < st + h"
            by blast
          then show ?thesis
            by (simp add: cl rd Suc)
        qed
      qed
      moreover from n2 have "\<not> clock s (reads s + Suc n) < st + h"
        by (simp add: cl rd)
      ultimately show ?thesis
        unfolding P_def by (intro exI [of _ "Suc n"] conjI)
    next
      case False
      then have "(\<forall>k<0. clock s (reads s + k) < st + h) \<and> \<not> clock s (reads s + 0) < st + h"
        by simp
      then show ?thesis
        unfolding P_def by (rule exI [of _ 0])
    qed
  qed
  then show ?thesis
    by (simp only: P_def)
qed

lemma sendCommand_rounds:
  assumes "\<forall>k<n. clock s (reads s + 1 + k) < clock s (reads s) + hold_time_ms"
    and "\<not> clock s (reads s + 1 + n) < clock s (reads s) + hold_time_ms"
  shows "sendCommand command hold_time_ms s =
     Some (s\<lparr>outputsEnabled := False,
       events := events s @ commandLog (commandFrame command) n,
       reads := reads s + n + 2\<rparr>)"
proof -
  let ?f = "commandFrame command"
  let ?t = "sendFrame ?f (delay 35 (sendFrame ?f (s\<lparr>reads := Suc (reads s)\<rparr>)))"
  have cl: "clock ?t = clock s" and rd: "reads ?t = reads s + 1"
    by (simp_all add: sendFrame_log delay_def)
  from assms have "\<forall>k<n. clock ?t (reads ?t + k) < clock s (reads s) + hold_time_ms"
    and "\<not> clock ?t (reads ?t + n) < clock s (reads s) + hold_time_ms"
    unfolding cl rd by simp_all
  from holdLoop_exit [OF this, of ?f] show ?thesis
    by (simp add: sendCommand_def Let_def millis_def stopFrames_state commandLog_def
        sendFrame_log delay_def)
qed

lemma sendCommand_Some:
  assumes "sendCommand command hold_time_ms s = Some s'"
  shows "\<exists>n. (\<forall>k<n. clock s (reads s + 1 + k) < clock s (reads s) + hold_time_ms) \<and>
      \<not> clock s (reads s + 1 + n) < clock s (reads s) + hold_time_ms"
proof -
  let ?f = "commandFrame command"
  let ?t = "sendFrame ?f (delay 35 (sendFrame ?f (s\<lparr>reads := Suc (reads s)\<rparr>)))"
  have cl: "clock ?t = clock s" and rd: "reads ?t = reads s + 1"
    by (simp_all add: sendFrame_log delay_def)
  from assms obtain s2 where "holdLoop (clock s (reads s)) hold_time_ms ?f ?t = Some s2"
    by (auto simp: sendCommand_def Let_def millis_def split: option.splits)
  from holdLoop_Some [OF this] show ?thesis
    unfolding cl rd .
qed

lemma clock_reaches:
  fixes r :: "nat \<Rightarrow> ulong"
  assumes "\<forall>k. r k < limit \<longrightarrow> unat (r k) + 35 \<le> unat (r (Suc k))"
  shows "\<exists>n. (\<forall>k<n. r k < limit) \<and> \<not> r n < limit"
proof -
  have "\<exists>n. \<not> r n < limit"
  proof (rule ccontr)
    assume "\<not> (\<exists>n. \<not> r n < limit)"
    then have below: "r n < limit" for n
      by blast
    have grow: "35 * n \<le> unat (r n)" for n
    proof (induction n)
      case 0
      show ?case by simp
    next
      case (Suc n)
      from assms below [of n] have "unat (r n) + 35 \<le> unat (r (Suc n))"
        by blast
      with Suc show ?case by simp
    qed
    have "unat (r (2 ^ 32)) < 2 ^ 32"
      using unsigned_less [of "r (2 ^ 32)"] by simp
    with grow [of "2 ^ 32"] show False
      by simp
  qed
  then obtain n where "\<not> r n < limit" "\<forall>m<n. \<not> \<not> r m < limit"
    using exists_least_iff [of "\<lambda>n. \<not> r n < limit"] by blast
  then show ?thesis
    by auto
qed

text \<open>The two bytes of a frame built from a byte and its complement.\<close>

lemma frame_low_byte:
  fixes b :: uint8_t
  shows "ucast (push_bit 8 (ucast (NOT b) :: uint16_t) OR ucast b) = b"
  by (rule bit_word_eqI) (auto simp add: bit_simps)

lemma frame_high_byte:
  fixes b :: uint8_t
  shows "(ucast (drop_bit 8 (push_bit 8 (ucast (NOT b) :: uint16_t) OR ucast b)) :: uint8_t) = NOT b"
  by (rule bit_word_eqI) (auto simp add: bit_simps dest: bit_imp_le_length)

lemma commandFrame_STOP: "commandFrame STOP = 0xFF00"
  by (simp add: commandFrame_def unsigned_minus_1_eq_mask mask_eq_exp_minus_1)

text \<open>Closed logs stay closed when they are joined.\<close>

lemma enablesClosed_append:
  "enablesClosed xs \<Longrightarrow> enablesClosed ys \<Longrightarrow> enablesClosed (xs @ ys)"
  by (induction xs rule: enablesClosed.induct) auto

lemma enablesClosed_concat:
  "(\<And>xs. xs \<in> set xss \<Longrightarrow> enablesClosed xs) \<Longrightarrow> enablesClosed (concat xss)"
  by (induction xss) (simp_all add: enablesClosed_append)

lemma enablesClosed_onePulse: "enablesClosed (onePulse p)"
  by (simp add: onePulse_def)

lemma enablesClosed_frameLog: "enablesClosed (frameLog frame)"
  unfolding frameLog_eq by (rule enablesClosed_concat) (auto simp: enablesClosed_onePulse)

lemma enablesClosed_rounds: "enablesClosed (concat (replicate n (Delay ms # frameLog frame)))"
  by (rule enablesClosed_concat) (simp add: enablesClosed_frameLog)

lemma enablesClosed_commandLog: "enablesClosed (commandLog frame n)"
proof -
  have "enablesClosed (Delay 35 # frameLog frame)"
    by (simp add: enablesClosed_frameLog)
  then show ?thesis
    unfolding commandLog_def
    by (intro enablesClosed_append enablesClosed_frameLog enablesClosed_rounds)
      (simp_all add: enablesClosed_frameLog enablesClosed_rounds enablesClosed_append)
qed

lemma Submarine_board: "Submarine True (\<lambda>k. t0 + 35 * of_nat k) = Some (board t0)"
  by (simp add: Submarine_def enableOutputs_def board_def)

lemma reachable_board: "reachable (board t0)"
  using Submarine_board by (rule reachable.constructed)

lemma length_rounds: "length (concat (replicate n xs)) = n * length xs"
  by (induction n) simp_all

lemma commandLog_inj:
  assumes "commandLog frame n = commandLog frame m"
  shows "n = m"
proof -
  from assms have "length (commandLog frame n) = length (commandLog frame m)"
    by simp
  then have "n * Suc (length (frameLog frame)) = m * Suc (length (frameLog frame))"
    by (simp add: commandLog_def length_rounds)
  then show ?thesis
    by (simp only: mult_cancel2) simp
qed

lemma sendCommand_first_test:
  assumes "clock s (reads s + 1) < clock s (reads s) + hold_time_ms"
  shows "sendCommand command hold_time_ms s \<noteq>
     Some (s\<lparr>outputsEnabled := False,
       events := events s @ commandLog (commandFrame command) 0,
       reads := reads s + 2\<rparr>)"
proof
  assume eq: "sendCommand command hold_time_ms s =
     Some (s\<lparr>outputsEnabled := False,
       events := events s @ commandLog (commandFrame command) 0,
       reads := reads s + 2\<rparr>)"
  from sendCommand_Some [OF eq] obtain n
    where n: "\<forall>k<n. clock s (reads s + 1 + k) < clock s (reads s) + hold_time_ms"
      "\<not> clock s (reads s + 1 + n) < clock s (reads s) + hold_time_ms"
    by blast
  from n(2) assms have "n \<noteq> 0"
    by (cases n) auto
  let ?a = "s\<lparr>outputsEnabled := False,
       events := events s @ commandLog (commandFrame command) n,
       reads := reads s + n + 2\<rparr>"
  let ?b = "s\<lparr>outputsEnabled := False,
       events := events s @ commandLog (commandFrame command) 0,
       reads := reads s + 2\<rparr>"
  from sendCommand_rounds [OF n, of command] eq have "?a = ?b"
    by simp
  then have "events ?a = events ?b"
    by (simp only:)
  then have "commandLog (commandFrame command) n = commandLog (commandFrame command) 0"
    by simp
  then have "n = 0"
    by (simp add: commandLog_inj)
  with \<open>n \<noteq> 0\<close> show False
    by simp
qed

lemma clock_board [simp]: "clock (board t0) k = t0 + 35 * of_nat k"
  by (simp add: board_def)

lemma reads_board [simp]: "reads (board t0) = 0"
  by (simp add: board_def)

lemma step_35:
  fixes x :: ulong
  assumes "x < 4200"
  shows "unat x + 35 \<le> unat (x + 35)"
proof -
  from assms have "unat x < 4200"
    by (simp add: word_less_nat_alt)
  then have "unat (x + 35) = unat x + 35"
    by (simp add: unat_word_ariths)
  then show ?thesis
    by simp
qed

lemma clock_paced [simp]:
  "clock (paced t0) k = (if k = 0 then t0 else t0 + 11 + 45 * of_nat k)"
  by (simp add: paced_def)

lemma reads_paced [simp]: "reads (paced t0) = 0"
  by (simp add: paced_def)







lemma paced_forward_100:
  "sendCommand FORWARD 100 (paced 1200) =
     Some ((paced 1200)\<lparr>outputsEnabled := False,
       events := events (paced 1200) @ commandLog (commandFrame FORWARD) 1,
       reads := 3\<rparr>)"
proof -
  have "\<forall>k<1. clock (paced 1200) (reads (paced 1200) + 1 + k) <
      clock (paced 1200) (reads (paced 1200)) + 100"
    by (simp add: word_less_def)
  moreover have "\<not> clock (paced 1200) (reads (paced 1200) + 1 + 1) <
      clock (paced 1200) (reads (paced 1200)) + 100"
    by (simp add: word_less_def)
  ultimately show ?thesis
    using sendCommand_rounds [of 1 "paced 1200" 100 FORWARD] by (simp add: numeral_3_eq_3)
qed

section \<open>The frame encoder\<close>

text \<open>
  C1. For every 16-bit frame, \<open>sendFrame\<close> is the same as emitting one pulse at a
  time for the 19 pulse classes of \<open>framePulses\<close>, in their order: two SYNC pulses,
  then the sixteen data pulses for the bits 15 down to 0 (LONG for a set bit, SHORT for a
  clear one), then one SHORT pulse. What it adds to the log is the switching and the waits
  of these 19 pulses, one pulse after the other: a SYNC pulse is outputs on, 900 us,
  outputs off, 900 us; a LONG pulse the same with 450 us; a SHORT pulse outputs on,
  outputs off.
\<close>

theorem sendFrame_pulses:
  "sendFrame frame s = fold (\<lambda>p. sendPulses p 1) (framePulses frame) s \<and>
   length (framePulses frame) = 19 \<and>
   events (sendFrame frame s) = events s @ concat (map onePulse (framePulses frame)) \<and>
   onePulse PULSE_SYNC =
     [EnableOutputs True, DelayMicroseconds 900, EnableOutputs False, DelayMicroseconds 900] \<and>
   onePulse PULSE_LONG =
     [EnableOutputs True, DelayMicroseconds 450, EnableOutputs False, DelayMicroseconds 450] \<and>
   onePulse PULSE_SHORT = [EnableOutputs True, EnableOutputs False]"
proof -
  have "sendFrame frame s = fold (\<lambda>p. sendPulses p 1) (framePulses frame) s"
    by (rule sendFrame_fold)
  moreover have "length (framePulses frame) = 19"
    by (simp add: framePulses_def dataPulses_def)
  moreover have "events (sendFrame frame s) =
      events s @ concat (map onePulse (framePulses frame))"
    by (simp add: sendFrame_state)
  moreover have "onePulse PULSE_SYNC =
      [EnableOutputs True, DelayMicroseconds 900, EnableOutputs False, DelayMicroseconds 900]"
    and "onePulse PULSE_LONG =
      [EnableOutputs True, DelayMicroseconds 450, EnableOutputs False, DelayMicroseconds 450]"
    and "onePulse PULSE_SHORT = [EnableOutputs True, EnableOutputs False]"
    by (simp_all add: onePulse_def PULSE_SYNC_def PULSE_LONG_def PULSE_SHORT_def)
  ultimately show ?thesis
    by (intro conjI)
qed

section \<open>The command codec\<close>

text \<open>
  C3. For every command, the low byte of its frame is the command's raw value and the
  high byte is the bitwise complement of the low byte.
\<close>

theorem commandFrame_bytes:
  "ucast (commandFrame command) = static_cast_uint8 command \<and>
   (ucast (drop_bit 8 (commandFrame command)) :: uint8_t) = NOT (ucast (commandFrame command))"
  unfolding commandFrame_def Let_def by (simp only: frame_low_byte frame_high_byte simp_thms)

text \<open>
  C4, as stated: the frame of the command STOP is \<open>0x0000\<close> and differs from the
  stop frame \<open>0xFF00\<close>. It is not: the complement rule gives the high byte
  \<open>0xFF\<close>.
\<close>

theorem commandFrame_STOP_not_zero:
  "\<not> (commandFrame STOP = 0x0000 \<and> commandFrame STOP \<noteq> 0xFF00)"
  by (simp add: commandFrame_STOP)

text \<open>
  C4, amended: the frame of the command STOP is \<open>0xFF00\<close>, the very value
  \<open>sendStop\<close> sends; the closing loop of \<open>sendCommand\<close> sends the frame
  \<open>0xFF00\<close> three times, each time after a wait of 35 ms; and whenever
  \<open>sendCommand\<close> returns, for any command, the log ends with these three waits and
  frames \<open>0xFF00\<close>.
\<close>

theorem stop_path_frame:
  "commandFrame STOP = 0xFF00 \<and>
   sendStop s = sendFrame 0xFF00 s \<and>
   stopFrames 0 s =
     sendFrame 0xFF00 (delay 35 (sendFrame 0xFF00 (delay 35 (sendFrame 0xFF00 (delay 35 s))))) \<and>
   (sendCommand command hold_time_ms s = Some s' \<longrightarrow>
      (\<exists>es. events s' = es @ concat (replicate 3 (Delay 35 # frameLog 0xFF00))))"
proof -
  have "sendCommand command hold_time_ms s = Some s' \<longrightarrow>
      (\<exists>es. events s' = es @ concat (replicate 3 (Delay 35 # frameLog 0xFF00)))"
  proof
    assume ret: "sendCommand command hold_time_ms s = Some s'"
    from sendCommand_Some [OF ret] obtain n
      where "\<forall>k<n. clock s (reads s + 1 + k) < clock s (reads s) + hold_time_ms"
        and "\<not> clock s (reads s + 1 + n) < clock s (reads s) + hold_time_ms"
      by blast
    from sendCommand_rounds [OF this, of command] ret
    have "events s' = events s @ commandLog (commandFrame command) n"
      by auto
    then have "events s' =
        (events s @ frameLog (commandFrame command) @ Delay 35 # frameLog (commandFrame command) @
          concat (replicate n (Delay 35 # frameLog (commandFrame command)))) @
        concat (replicate 3 (Delay 35 # frameLog 0xFF00))"
      by (simp add: commandLog_def)
    then show "\<exists>es. events s' = es @ concat (replicate 3 (Delay 35 # frameLog 0xFF00))"
      by (rule exI)
  qed
  then show ?thesis
    by (simp add: commandFrame_STOP sendStop_def stopFrames.simps)
qed

theorem stop_path_frame_witness:
  "sendCommand FORWARD 100 (paced 1200) =
     Some ((paced 1200)\<lparr>outputsEnabled := False,
       events := events (paced 1200) @ commandLog (commandFrame FORWARD) 1,
       reads := 3\<rparr>) \<and>
   (\<exists>es. events ((paced 1200)\<lparr>outputsEnabled := False,
       events := events (paced 1200) @ commandLog (commandFrame FORWARD) 1,
       reads := 3\<rparr>) = es @ concat (replicate 3 (Delay 35 # frameLog 0xFF00)))"
  using stop_path_frame [of "paced 1200" FORWARD 100
      "(paced 1200)\<lparr>outputsEnabled := False,
         events := events (paced 1200) @ commandLog (commandFrame FORWARD) 1,
         reads := 3\<rparr>"]
    paced_forward_100
  by blast

section \<open>The pulse timing engine\<close>

text \<open>
  C6. For every pulse type and every count, \<open>sendPulses\<close> adds to the log, once per
  repetition: with \<open>enableWait\<close> set, outputs on, a wait of \<open>waitDuration\<close>,
  outputs off, a wait of \<open>waitDuration\<close>; without it, outputs on and outputs off
  with nothing in between. A count below zero gives no repetition.
\<close>

theorem sendPulses_repetitions:
  "events (sendPulses pulseType pulseCount s) =
     events s @ concat (replicate (nat pulseCount)
       (if enableWait pulseType
        then [EnableOutputs True, DelayMicroseconds (waitDuration pulseType),
              EnableOutputs False, DelayMicroseconds (waitDuration pulseType)]
        else [EnableOutputs True, EnableOutputs False]))"
  by (simp add: sendPulses_state onePulse_def)

text \<open>
  C10. For every pulse type, \<open>sendPulses\<close> with a count of zero or less leaves the
  state as it was: no switching of the outputs, no wait.
\<close>

theorem sendPulses_nonpositive:
  "pulseCount \<le> 0 \<Longrightarrow> sendPulses pulseType pulseCount s = s"
  by (simp add: sendPulses_state)

theorem sendPulses_nonpositive_witness:
  "(- 3 :: int) \<le> 0 \<and> sendPulses PULSE_LONG (- 3) (board 1200) = board 1200"
  using sendPulses_nonpositive [of "- 3" PULSE_LONG "board 1200"] by simp

text \<open>
  C8. In every state an object can be in between two calls (after the constructor, and
  after any call of \<open>sendPulses\<close>, \<open>sendFrame\<close>, \<open>sendStop\<close> or
  \<open>sendCommand\<close> that returns) the outputs are off, and in the log every switching-on
  of the outputs is followed by a switching-off.
\<close>

theorem carrier_left_disabled:
  "reachable s \<Longrightarrow> \<not> outputsEnabled s \<and> enablesClosed (events s)"
proof (induction s rule: reachable.induct)
  case (constructed beginOk clk s)
  then show ?case
    by (auto simp: Submarine_def enableOutputs_def split: if_splits)
next
  case (pulses s pulseType pulseCount)
  have "enablesClosed (concat (replicate (nat pulseCount) (onePulse pulseType)))"
    by (rule enablesClosed_concat) (simp add: enablesClosed_onePulse)
  with pulses.IH show ?case
    by (simp add: sendPulses_state enablesClosed_append)
next
  case (frame s frame)
  then show ?case
    by (simp add: sendFrame_log enablesClosed_append enablesClosed_frameLog)
next
  case (stop s)
  then show ?case
    by (simp add: sendStop_def sendFrame_log enablesClosed_append enablesClosed_frameLog)
next
  case (command s command hold_time_ms s')
  from sendCommand_Some [OF command.hyps(2)] obtain n
    where "\<forall>k<n. clock s (reads s + 1 + k) < clock s (reads s) + hold_time_ms"
      and "\<not> clock s (reads s + 1 + n) < clock s (reads s) + hold_time_ms"
    by blast
  from sendCommand_rounds [OF this, of command] command.hyps(2)
  have "s' = s\<lparr>outputsEnabled := False,
      events := events s @ commandLog (commandFrame command) n, reads := reads s + n + 2\<rparr>"
    by simp
  with command.IH show ?case
    by (simp add: enablesClosed_append enablesClosed_commandLog)
qed

theorem carrier_left_disabled_witness:
  "reachable (sendFrame 0xFE01 (board 1200)) \<and>
   \<not> outputsEnabled (sendFrame 0xFE01 (board 1200)) \<and>
   enablesClosed (events (sendFrame 0xFE01 (board 1200)))"
proof -
  have "reachable (sendFrame 0xFE01 (board 1200))"
    using reachable_board by (rule reachable.frame)
  with carrier_left_disabled [of "sendFrame 0xFE01 (board 1200)"] show ?thesis
    by simp
qed

section \<open>The command sequencer\<close>

text \<open>
  C2, on the code. The command is held while the elapsed time is less than the hold time;
  the documentation of \<^verbatim>\<open>hold_time_ms\<close> says so too (how many ms to hold the
  command). The test of the loop compares the counter with the sum
  \<^verbatim>\<open>start_time + hold_time_ms\<close> instead, and the sum wraps: with the hold time
  3000 on a board whose counter reads 4294967000 at the start, 56 ms have elapsed at the
  first test, less than 3000, but the sum is 2704 and the loop is left at once. The
  command is sent twice and the stop frames follow, with no round of the hold loop.
\<close>

theorem sendCommand_rollover_stops_early:
  "elapsed (paced 4294967000) 1 < sint (3000 :: long) \<and>
   sendCommand FORWARD 3000 (paced 4294967000) =
     Some ((paced 4294967000)\<lparr>outputsEnabled := False,
       events := events (paced 4294967000) @
         frameLog (commandFrame FORWARD) @ Delay 35 # frameLog (commandFrame FORWARD) @
         concat (replicate 3 (Delay 35 # frameLog 0xFF00)),
       reads := 2\<rparr>)"
proof -
  have "elapsed (paced 4294967000) 1 < sint (3000 :: long)"
    by (simp add: elapsed_def)
  moreover have "\<not> clock (paced 4294967000) (reads (paced 4294967000) + 1 + 0) <
      clock (paced 4294967000) (reads (paced 4294967000)) + 3000"
    by (simp add: word_less_def)
  then have "sendCommand FORWARD 3000 (paced 4294967000) =
     Some ((paced 4294967000)\<lparr>outputsEnabled := False,
       events := events (paced 4294967000) @
         frameLog (commandFrame FORWARD) @ Delay 35 # frameLog (commandFrame FORWARD) @
         concat (replicate 3 (Delay 35 # frameLog 0xFF00)),
       reads := 2\<rparr>)"
    using sendCommand_rounds [of 0 "paced 4294967000" 3000 FORWARD]
    by (simp add: commandLog_def numeral_2_eq_2)
  ultimately show ?thesis
    by (intro conjI)
qed

text \<open>
  C5, on the code. A hold time smaller than the time elapsed at the first test keeps the
  loop body from running, the hold time 0 above all. With the hold time 0 on a board whose
  counter reads 4294967266 at the start, 30 ms before it rolls over, 56 ms have elapsed at
  the first test; the counter then reads 26, which is below the sum 4294967266, so the
  test passes and the loop body runs: the log is not the one of two frames and three stop
  frames. The cause is the one of C2, the comparison of the counter with a sum.
\<close>

theorem sendCommand_rollover_runs_loop:
  "sint (0 :: long) < elapsed (paced 4294967266) 1 \<and>
   clock (paced 4294967266) 1 < clock (paced 4294967266) 0 + 0 \<and>
   sendCommand FORWARD 0 (paced 4294967266) \<noteq>
     Some ((paced 4294967266)\<lparr>outputsEnabled := False,
       events := events (paced 4294967266) @
         frameLog (commandFrame FORWARD) @ Delay 35 # frameLog (commandFrame FORWARD) @
         concat (replicate 3 (Delay 35 # frameLog 0xFF00)),
       reads := 2\<rparr>)"
proof -
  have "sint (0 :: long) < elapsed (paced 4294967266) 1"
    by (simp add: elapsed_def)
  moreover have t: "clock (paced 4294967266) 1 < clock (paced 4294967266) 0 + 0"
    by (simp add: word_less_def)
  moreover from t have "clock (paced 4294967266) (reads (paced 4294967266) + 1) <
      clock (paced 4294967266) (reads (paced 4294967266)) + 0"
    by simp
  from sendCommand_first_test [OF this, of FORWARD]
  have "sendCommand FORWARD 0 (paced 4294967266) \<noteq>
     Some ((paced 4294967266)\<lparr>outputsEnabled := False,
       events := events (paced 4294967266) @
         frameLog (commandFrame FORWARD) @ Delay 35 # frameLog (commandFrame FORWARD) @
         concat (replicate 3 (Delay 35 # frameLog 0xFF00)),
       reads := 2\<rparr>)"
    by (simp add: commandLog_def numeral_2_eq_2)
  ultimately show ?thesis
    by (intro conjI)
qed




text \<open>
  C9. Under the clock model \<open>waitsAdvance\<close>, for every command and every hold time
  the hold loop is left after finitely many rounds and \<open>sendCommand\<close> returns.
\<close>

theorem sendCommand_terminates:
  assumes "waitsAdvance s hold_time_ms"
  shows "\<exists>s'. sendCommand command hold_time_ms s = Some s'"
proof -
  let ?r = "\<lambda>k. clock s (reads s + 1 + k)"
  let ?limit = "clock s (reads s) + hold_time_ms"
  have "\<forall>k. ?r k < ?limit \<longrightarrow> unat (?r k) + 35 \<le> unat (?r (Suc k))"
  proof (intro allI impI)
    fix k
    assume "?r k < ?limit"
    with assms [unfolded waitsAdvance_def, rule_format, of "Suc k"]
    show "unat (?r k) + 35 \<le> unat (?r (Suc k))"
      by simp
  qed
  from clock_reaches [OF this] obtain n
    where "\<forall>k<n. ?r k < ?limit" and "\<not> ?r n < ?limit"
    by blast
  from sendCommand_rounds [OF this] show ?thesis
    by blast
qed

theorem sendCommand_terminates_witness:
  "waitsAdvance (board 1200) 3000 \<and> (\<exists>s'. sendCommand LEFT 3000 (board 1200) = Some s')"
proof -
  have "waitsAdvance (board 1200) 3000"
    unfolding waitsAdvance_def
  proof (intro allI impI)
    fix k :: nat
    assume "1 \<le> k \<and> clock (board 1200) (reads (board 1200) + k) <
      clock (board 1200) (reads (board 1200)) + 3000"
    then have "(1200 + 35 * of_nat k :: ulong) < 4200"
      by simp
    from step_35 [OF this]
    show "unat (clock (board 1200) (reads (board 1200) + k)) + 35 \<le>
      unat (clock (board 1200) (reads (board 1200) + Suc k))"
      by (simp add: algebra_simps)
  qed
  with sendCommand_terminates [of "board 1200" 3000 LEFT] show ?thesis
    by simp
qed

end
